theory Spec2Isabelle
  imports Complex_Main "HOL-Library.Word" "HOL-Library.Stream" "HOL-Library.Multiset"
begin

unbundle bit_operations_syntax

section \<open>The Sudoku engine (js/sudoku.js)\<close>

subsection \<open>Difficulty bands\<close>

text \<open>
  The table \<^verbatim>\<open>DIFFICULTY\<close>: a band name with its inclusive range of clue counts.
  \<^verbatim>\<open>DIFFICULTY[difficulty] || DIFFICULTY.medium\<close> falls back to the medium band for a
  name that is not a key of the table.
\<close>

definition DIFFICULTY :: "(string \<times> nat \<times> nat) list" where
  "DIFFICULTY =
     [(''easy'', 38, 45), (''medium'', 30, 37), (''hard'', 25, 29),
      (''expert'', 22, 24), (''evil'', 17, 21)]"

definition getDifficulties :: "string list" where
  "getDifficulties = map fst DIFFICULTY"

definition clueRange :: "string \<Rightarrow> nat \<times> nat" where
  "clueRange difficulty =
     (case map_of DIFFICULTY difficulty of
        Some band \<Rightarrow> band
      | None \<Rightarrow> the (map_of DIFFICULTY ''medium''))"

subsection \<open>The random number generator\<close>

text \<open>
  \<^verbatim>\<open>mulberry32(seed)\<close> keeps one signed 32-bit state \<^verbatim>\<open>s = seed | 0\<close>. Every operator
  of its body (\<^verbatim>\<open>| 0\<close>, \<^verbatim>\<open>^\<close>, \<^verbatim>\<open>>>>\<close>, \<^verbatim>\<open>Math.imul\<close>) works modulo \<open>2^32\<close>, so the
  state is a 32-bit word; \<^verbatim>\<open>>>> 15\<close> is the logical shift \<open>drop_bit 15\<close>, and the final
  \<^verbatim>\<open>>>> 0\<close> reads the word as unsigned before the division by \<open>4294967296\<close>.

  The module variable \<^verbatim>\<open>rng\<close> is either such a generator or \<^verbatim>\<open>Math.random\<close>; the
  latter is the stream of numbers the platform hands out, one per call.
\<close>

datatype rng = Mulberry32 "32 word" | MathRandom "real stream"

definition mulberry32 :: "int \<Rightarrow> rng" where
  "mulberry32 seed = Mulberry32 (word_of_int seed)"

definition mulberry32_next :: "32 word \<Rightarrow> real \<times> 32 word" where
  "mulberry32_next s0 =
     (let s = s0 + 0x6D2B79F5;
          t = (s XOR drop_bit 15 s) * (1 OR s);
          t' = (t + (t XOR drop_bit 7 t) * (61 OR t)) XOR t
      in (real (unat (t' XOR drop_bit 14 t')) / 4294967296, s))"

fun rng_call :: "rng \<Rightarrow> real \<times> rng" where
  "rng_call (Mulberry32 s) = (case mulberry32_next s of (x, s') \<Rightarrow> (x, Mulberry32 s'))"
| "rng_call (MathRandom rs) = (shd rs, MathRandom (stl rs))"

subsection \<open>Grids\<close>

text \<open>
  A grid is an array of rows of numbers, \<open>0\<close> for an empty cell. The engine builds its
  grids with \<^verbatim>\<open>createEmptyGrid\<close> (nine rows of nine cells) and reads and writes
  \<^verbatim>\<open>grid[row][col]\<close> with \<open>row\<close> and \<open>col\<close> from loops over \<open>0..8\<close>, so every access of
  the generator is in range. \<open>wf_grid\<close> is that shape; the theorems about a grid handed
  in from outside carry it as a hypothesis.
\<close>

type_synonym grid = "nat list list"

definition createEmptyGrid :: grid where
  "createEmptyGrid = replicate 9 (replicate 9 0)"

definition cloneGrid :: "grid \<Rightarrow> grid" where
  "cloneGrid grid = map (\<lambda>row. row) grid"

definition setCell :: "grid \<Rightarrow> nat \<Rightarrow> nat \<Rightarrow> nat \<Rightarrow> grid" where
  "setCell grid row col v = grid[row := (grid ! row)[col := v]]"

definition wf_grid :: "grid \<Rightarrow> bool" where
  "wf_grid grid = (length grid = 9 \<and> list_all (\<lambda>row. length row = 9) grid)"

text \<open>The 81 positions in row-major order, as the nested \<^verbatim>\<open>for\<close> loops visit them.\<close>

definition cells :: "(nat \<times> nat) list" where
  "cells = concat (map (\<lambda>row. map (\<lambda>col. (row, col)) [0..<9]) [0..<9])"

subsection \<open>isValid\<close>

text \<open>
  Three scans, each returning \<^verbatim>\<open>false\<close> at the first cell that holds \<open>num\<close>: the row, the
  column, and the 3x3 box whose corner is \<^verbatim>\<open>(Math.floor(row / 3) * 3, Math.floor(col / 3) * 3)\<close>.
\<close>

definition isValid :: "grid \<Rightarrow> nat \<Rightarrow> nat \<Rightarrow> nat \<Rightarrow> bool" where
  "isValid grid row col num =
     (if list_ex (\<lambda>c. grid ! row ! c = num) [0..<9] then False
      else if list_ex (\<lambda>r. grid ! r ! col = num) [0..<9] then False
      else
        let boxRow = (row div 3) * 3; boxCol = (col div 3) * 3
        in if list_ex (\<lambda>r. list_ex (\<lambda>c. grid ! r ! c = num) [boxCol..<boxCol + 3])
                [boxRow..<boxRow + 3]
           then False
           else True)"

subsection \<open>shuffle\<close>

text \<open>
  The Fisher-Yates loop \<^verbatim>\<open>for (i = arr.length - 1; i > 0; i--)\<close> with
  \<^verbatim>\<open>j = Math.floor(rng() * (i + 1))\<close> and the swap of \<^verbatim>\<open>arr[i]\<close> and \<^verbatim>\<open>arr[j]\<close>.
  \<open>shuffle_from i\<close> is the loop from index \<open>i\<close> down.
\<close>

fun shuffle_from :: "nat \<Rightarrow> 'a list \<Rightarrow> rng \<Rightarrow> 'a list \<times> rng" where
  "shuffle_from 0 arr g = (arr, g)"
| "shuffle_from (Suc k) arr g =
     (case rng_call g of
        (x, g') \<Rightarrow>
          let i = Suc k; j = nat \<lfloor>x * real (i + 1)\<rfloor>
          in shuffle_from k (arr[i := arr ! j, j := arr ! i]) g')"

definition shuffle :: "'a list \<Rightarrow> rng \<Rightarrow> 'a list \<times> rng" where
  "shuffle arr g = shuffle_from (length arr - 1) arr g"

subsection \<open>fillGrid\<close>

text \<open>
  The two nested loops of \<^verbatim>\<open>fillGrid\<close> and of \<^verbatim>\<open>solve\<close> look for the first empty cell in
  row-major order; the body of the innermost \<^verbatim>\<open>if\<close> always returns, so only that first
  cell is ever acted on.
\<close>

definition firstEmpty :: "grid \<Rightarrow> (nat \<times> nat) option" where
  "firstEmpty grid = find (\<lambda>(row, col). grid ! row ! col = 0) cells"

text \<open>
  \<^verbatim>\<open>fillGrid\<close> mutates the grid in place and calls itself; the model passes the grid and the
  generator in and out. The first argument bounds the depth of the recursion: the
  function is \<open>None\<close> when the bound is used up. \<open>tryNums\<close> is the loop
  \<^verbatim>\<open>for (const num of nums)\<close> at the empty cell \<open>(row, col)\<close>; after a recursive call that
  returned \<^verbatim>\<open>false\<close> it resets the cell with \<^verbatim>\<open>grid[row][col] = 0\<close>.
\<close>

fun fillGrid :: "nat \<Rightarrow> grid \<Rightarrow> rng \<Rightarrow> (bool \<times> grid \<times> rng) option"
  and tryNums :: "nat \<Rightarrow> nat \<Rightarrow> nat \<Rightarrow> nat list \<Rightarrow> grid \<Rightarrow> rng \<Rightarrow> (bool \<times> grid \<times> rng) option"
where
  "fillGrid 0 grid g = None"
| "fillGrid (Suc fuel) grid g =
     (case firstEmpty grid of
        None \<Rightarrow> Some (True, grid, g)
      | Some (row, col) \<Rightarrow>
          (case shuffle [1, 2, 3, 4, 5, 6, 7, 8, 9] g of
             (nums, g') \<Rightarrow> tryNums fuel row col nums grid g'))"
| "tryNums fuel row col [] grid g = Some (False, grid, g)"
| "tryNums fuel row col (num # nums) grid g =
     (if isValid grid row col num then
        (case fillGrid fuel (setCell grid row col num) g of
           None \<Rightarrow> None
         | Some (ok, grid', g') \<Rightarrow>
             if ok then Some (True, grid', g')
             else tryNums fuel row col nums (setCell grid' row col 0) g')
      else tryNums fuel row col nums grid g)"

subsection \<open>countSolutions\<close>

text \<open>
  The inner function \<^verbatim>\<open>solve\<close> shares the counter \<^verbatim>\<open>count\<close> with its caller; the model
  passes it in and out with the grid. \<open>solveNums\<close> is the loop
  \<^verbatim>\<open>for (let num = 1; num <= 9; num++)\<close>, which resets the cell after every recursive call.
\<close>

fun solve :: "nat \<Rightarrow> nat \<Rightarrow> grid \<Rightarrow> nat \<Rightarrow> (grid \<times> nat) option"
  and solveNums :: "nat \<Rightarrow> nat \<Rightarrow> nat \<Rightarrow> nat \<Rightarrow> nat list \<Rightarrow> grid \<Rightarrow> nat \<Rightarrow> (grid \<times> nat) option"
where
  "solve 0 limit g cnt = None"
| "solve (Suc fuel) limit g cnt =
     (if cnt \<ge> limit then Some (g, cnt)
      else
        (case firstEmpty g of
           None \<Rightarrow> Some (g, cnt + 1)
         | Some (row, col) \<Rightarrow> solveNums fuel limit row col [1..<10] g cnt))"
| "solveNums fuel limit row col [] g cnt = Some (g, cnt)"
| "solveNums fuel limit row col (num # nums) g cnt =
     (if isValid g row col num then
        (case solve fuel limit (setCell g row col num) cnt of
           None \<Rightarrow> None
         | Some (g', cnt') \<Rightarrow> solveNums fuel limit row col nums (setCell g' row col 0) cnt')
      else solveNums fuel limit row col nums g cnt)"

definition countSolutions :: "grid \<Rightarrow> nat \<Rightarrow> nat option" where
  "countSolutions grid limit = map_option snd (solve 82 limit (cloneGrid grid) 0)"

subsection \<open>generate\<close>

text \<open>
  The loop over the shuffled positions: it stops when \<open>cellsToRemove\<close> cells are
  removed, clears the cell, and puts the value back unless \<^verbatim>\<open>countSolutions(puzzle)\<close> is 1.
\<close>

fun removeCells :: "(nat \<times> nat) list \<Rightarrow> nat \<Rightarrow> grid \<Rightarrow> nat \<Rightarrow> (grid \<times> nat) option" where
  "removeCells [] cellsToRemove puz removed = Some (puz, removed)"
| "removeCells ((row, col) # positions) cellsToRemove puz removed =
     (if removed \<ge> cellsToRemove then Some (puz, removed)
      else
        let backup = puz ! row ! col; puz' = setCell puz row col 0
        in (case countSolutions puz' 2 of
              None \<Rightarrow> None
            | Some n \<Rightarrow>
                if n \<noteq> 1 then removeCells positions cellsToRemove (setCell puz' row col backup) removed
                else removeCells positions cellsToRemove puz' (removed + 1)))"

record generated =
  puzzle :: grid
  solution :: grid
  difficulty :: string
  clues :: nat
  seed :: "int option"

text \<open>
  \<open>generate level seedOpt mathRandom\<close> (\<open>level\<close> is the parameter \<^verbatim>\<open>difficulty\<close>, \<open>seedOpt\<close> the
  parameter \<^verbatim>\<open>seed\<close>): \<open>mathRandom\<close> is what \<^verbatim>\<open>Math.random\<close> would
  return during the call, read only when the seed is \<^verbatim>\<open>null\<close> (\<open>None\<close>). The result is
  \<open>None\<close> only if a recursion bound of \<open>fillGrid\<close> or \<open>solve\<close> is used up.
\<close>

definition generate :: "string \<Rightarrow> int option \<Rightarrow> real stream \<Rightarrow> generated option" where
  "generate level seedOpt mathRandom =
     (let g0 = (case seedOpt of Some s \<Rightarrow> mulberry32 s | None \<Rightarrow> MathRandom mathRandom);
          (minClues, maxClues) = clueRange level;
          (x, g1) = rng_call g0;
          targetClues = nat \<lfloor>x * real (maxClues - minClues + 1)\<rfloor> + minClues;
          cellsToRemove = 81 - targetClues
      in (case fillGrid 82 createEmptyGrid g1 of
            None \<Rightarrow> None
          | Some (ok, sol, g2) \<Rightarrow>
              (case shuffle (map (\<lambda>i. (i div 9, i mod 9)) [0..<81]) g2 of
                 (positions, g3) \<Rightarrow>
                   (case removeCells positions cellsToRemove (cloneGrid sol) 0 of
                      None \<Rightarrow> None
                    | Some (puz, removed) \<Rightarrow>
                        Some \<lparr>puzzle = puz, solution = sol, difficulty = level,
                              clues = 81 - removed, seed = seedOpt\<rparr>))))"

subsection \<open>Valid grids and completions\<close>

definition sameUnit :: "nat \<times> nat \<Rightarrow> nat \<times> nat \<Rightarrow> bool" where
  "sameUnit p q =
     (fst p = fst q \<or> snd p = snd q \<or> (fst p div 3 = fst q div 3 \<and> snd p div 3 = snd q div 3))"

definition validGrid :: "grid \<Rightarrow> bool" where
  "validGrid g =
     list_all (\<lambda>p. list_all (\<lambda>q. p = q \<or> \<not> sameUnit p q \<or> g ! fst p ! snd p = 0
                                  \<or> g ! fst p ! snd p \<noteq> g ! fst q ! snd q) cells) cells"

definition fullGrid :: "grid \<Rightarrow> bool" where
  "fullGrid g = list_all (\<lambda>p. 1 \<le> g ! fst p ! snd p \<and> g ! fst p ! snd p \<le> 9) cells"

definition agrees :: "grid \<Rightarrow> grid \<Rightarrow> bool" where
  "agrees puz h = list_all (\<lambda>p. puz ! fst p ! snd p = 0 \<or> h ! fst p ! snd p = puz ! fst p ! snd p) cells"

definition completion :: "grid \<Rightarrow> grid \<Rightarrow> bool" where
  "completion puz h = (wf_grid h \<and> fullGrid h \<and> validGrid h \<and> agrees puz h)"

definition zeros :: "grid \<Rightarrow> nat" where
  "zeros g = length (filter (\<lambda>p. g ! fst p ! snd p = 0) cells)"

lemma set_cells: "set cells = {p. fst p < 9 \<and> snd p < 9}"
  by (auto simp: cells_def)

lemma length_cells: "length cells = 81"
  by code_simp

lemma wf_grid_row: "wf_grid g \<Longrightarrow> r < 9 \<Longrightarrow> length (g ! r) = 9"
  by (simp add: wf_grid_def list_all_length)

lemma wf_grid_length: "wf_grid g \<Longrightarrow> length g = 9"
  by (simp add: wf_grid_def)

lemma wf_setCell: "wf_grid g \<Longrightarrow> wf_grid (setCell g r c v)"
proof (cases "r < length g")
  case True
  assume "wf_grid g"
  then show ?thesis
    using True unfolding wf_grid_def setCell_def list_all_length
    by (simp add: nth_list_update)
next
  case False
  assume "wf_grid g"
  then show ?thesis using False by (simp add: setCell_def not_less list_update_beyond)
qed

lemma nth_setCell:
  "wf_grid g \<Longrightarrow> r < 9 \<Longrightarrow> c < 9 \<Longrightarrow>
   setCell g r c v ! r' ! c' = (if r' = r \<and> c' = c then v else g ! r' ! c')"
  by (auto simp: setCell_def nth_list_update wf_grid_def list_all_length)

lemma setCell_same: "setCell g r c (g ! r ! c) = g"
  by (simp add: setCell_def)

lemma setCell_restore:
  "setCell (setCell g r c v) r c (g ! r ! c) = g"
proof (cases "r < length g")
  case True
  then show ?thesis by (simp add: setCell_def)
next
  case False
  then show ?thesis by (simp add: setCell_def not_less list_update_beyond)
qed

lemma grid_eqI:
  assumes "wf_grid g" "wf_grid h" "\<And>r c. r < 9 \<Longrightarrow> c < 9 \<Longrightarrow> g ! r ! c = h ! r ! c"
  shows "g = h"
proof (rule nth_equalityI)
  show "length g = length h" using assms(1,2) by (simp add: wf_grid_def)
next
  fix r assume "r < length g"
  then have r: "r < 9" using assms(1) by (simp add: wf_grid_def)
  show "g ! r = h ! r"
  proof (rule nth_equalityI)
    show "length (g ! r) = length (h ! r)"
      using r assms(1,2) by (simp add: wf_grid_row)
  next
    fix c assume "c < length (g ! r)"
    then have "c < 9" using r assms(1) by (simp add: wf_grid_row)
    then show "g ! r ! c = h ! r ! c" using r assms(3) by blast
  qed
qed

lemma list_ex_upt: "list_ex P [a..<b] \<longleftrightarrow> (\<exists>x. a \<le> x \<and> x < b \<and> P x)"
  by (simp only: list_ex_iff set_upt atLeastLessThan_iff Bex_def conj_assoc)

lemma box_range0: "(a * 3 \<le> r' \<and> r' < a * 3 + 3) \<longleftrightarrow> r' div 3 = (a::nat)"
proof
  assume "a * 3 \<le> r' \<and> r' < a * 3 + 3"
  then show "r' div 3 = a" by (intro div_nat_eqI) auto
next
  assume a: "r' div 3 = a"
  have "r' = r' div 3 * 3 + r' mod 3" by simp
  moreover have "r' mod 3 < 3" by simp
  ultimately show "a * 3 \<le> r' \<and> r' < a * 3 + 3" using a by linarith
qed

lemma box_bound: "r < 9 \<Longrightarrow> r' div 3 = (r::nat) div 3 \<Longrightarrow> r' < 9"
proof -
  assume r: "r < 9" and e: "r' div 3 = r div 3"
  have "r div 3 < 3" using r by simp
  then have "r' div 3 < 3" using e by simp
  then show "r' < 9" by simp
qed

lemma isValid_iff:
  "isValid g r c n \<longleftrightarrow>
     (\<forall>c'. c' < 9 \<longrightarrow> g ! r ! c' \<noteq> n) \<and> (\<forall>r'. r' < 9 \<longrightarrow> g ! r' ! c \<noteq> n) \<and>
     (\<forall>r' c'. r' div 3 = r div 3 \<and> c' div 3 = c div 3 \<longrightarrow> g ! r' ! c' \<noteq> n)"
proof -
  have row: "list_ex (\<lambda>c'. g ! r ! c' = n) [0..<9] \<longleftrightarrow> (\<exists>c'. c' < 9 \<and> g ! r ! c' = n)"
    unfolding list_ex_upt by blast
  have col: "list_ex (\<lambda>r'. g ! r' ! c = n) [0..<9] \<longleftrightarrow> (\<exists>r'. r' < 9 \<and> g ! r' ! c = n)"
    unfolding list_ex_upt by blast
  have box: "list_ex (\<lambda>r'. list_ex (\<lambda>c'. g ! r' ! c' = n) [c div 3 * 3..<c div 3 * 3 + 3])
                [r div 3 * 3..<r div 3 * 3 + 3]
             \<longleftrightarrow> (\<exists>r' c'. r' div 3 = r div 3 \<and> c' div 3 = c div 3 \<and> g ! r' ! c' = n)"
    unfolding list_ex_upt conj_assoc[symmetric] box_range0 by blast
  show ?thesis
    unfolding isValid_def Let_def row col box by (simp only: if_True if_False split: if_split) blast
qed

lemma isValid_sameUnit:
  assumes "r < 9" "c < 9"
  shows "isValid g r c n \<longleftrightarrow>
     (\<forall>r' c'. r' < 9 \<and> c' < 9 \<and> sameUnit (r, c) (r', c') \<longrightarrow> g ! r' ! c' \<noteq> n)"
    (is "?L \<longleftrightarrow> ?R")
proof
  assume L: ?L
  show ?R
  proof (intro allI impI)
    fix r' c' assume b: "r' < 9 \<and> c' < 9 \<and> sameUnit (r, c) (r', c')"
    then consider "r' = r" | "c' = c" | "r' div 3 = r div 3 \<and> c' div 3 = c div 3"
      unfolding sameUnit_def fst_conv snd_conv by metis
    then show "g ! r' ! c' \<noteq> n"
    proof cases
      case 1 then show ?thesis using L b unfolding isValid_iff by blast
    next
      case 2 then show ?thesis using L b unfolding isValid_iff by blast
    next
      case 3 then show ?thesis using L unfolding isValid_iff by blast
    qed
  qed
next
  assume R: ?R
  have row: "\<forall>c'. c' < 9 \<longrightarrow> g ! r ! c' \<noteq> n"
    using R assms unfolding sameUnit_def fst_conv snd_conv by blast
  have col: "\<forall>r'. r' < 9 \<longrightarrow> g ! r' ! c \<noteq> n"
    using R assms unfolding sameUnit_def fst_conv snd_conv by blast
  have box: "\<forall>r' c'. r' div 3 = r div 3 \<and> c' div 3 = c div 3 \<longrightarrow> g ! r' ! c' \<noteq> n"
  proof (intro allI impI)
    fix r' c'
    assume d: "r' div 3 = r div 3 \<and> c' div 3 = c div 3"
    then have "r' < 9" "c' < 9" using assms box_bound by blast+
    moreover have "sameUnit (r, c) (r', c')"
      using d unfolding sameUnit_def fst_conv snd_conv by simp
    ultimately show "g ! r' ! c' \<noteq> n" using R by blast
  qed
  show ?L unfolding isValid_iff using row col box by blast
qed

lemma list_all_cells: "list_all P cells \<longleftrightarrow> (\<forall>r c. r < 9 \<and> c < 9 \<longrightarrow> P (r, c))"
  by (simp only: list_all_iff set_cells Ball_def mem_Collect_eq split_paired_All fst_conv snd_conv)

lemma validGrid_iff0:
  "validGrid g \<longleftrightarrow>
     (\<forall>r c. r < 9 \<and> c < 9 \<longrightarrow> (\<forall>r' c'. r' < 9 \<and> c' < 9 \<longrightarrow>
         (r, c) = (r', c') \<or> \<not> sameUnit (r, c) (r', c') \<or> g ! r ! c = 0 \<or> g ! r ! c \<noteq> g ! r' ! c'))"
  by (simp only: validGrid_def list_all_cells fst_conv snd_conv)

lemma validGridD:
  assumes "validGrid g" "r < 9" "c < 9" "r' < 9" "c' < 9" "(r, c) \<noteq> (r', c')"
    "sameUnit (r, c) (r', c')" "g ! r ! c \<noteq> 0"
  shows "g ! r ! c \<noteq> g ! r' ! c'"
proof -
  have "(r, c) = (r', c') \<or> \<not> sameUnit (r, c) (r', c') \<or> g ! r ! c = 0 \<or> g ! r ! c \<noteq> g ! r' ! c'"
    using assms(1-5) unfolding validGrid_iff0 by blast
  then show ?thesis using assms(6-8) by blast
qed

lemma validGridI:
  assumes "\<And>r c r' c'. r < 9 \<Longrightarrow> c < 9 \<Longrightarrow> r' < 9 \<Longrightarrow> c' < 9 \<Longrightarrow> (r, c) \<noteq> (r', c') \<Longrightarrow>
     sameUnit (r, c) (r', c') \<Longrightarrow> g ! r ! c \<noteq> 0 \<Longrightarrow> g ! r ! c \<noteq> g ! r' ! c'"
  shows "validGrid g"
  unfolding validGrid_iff0 using assms by blast

lemma fullGrid_iff:
  "fullGrid g \<longleftrightarrow> (\<forall>r c. r < 9 \<and> c < 9 \<longrightarrow> 1 \<le> g ! r ! c \<and> g ! r ! c \<le> 9)"
  by (simp only: fullGrid_def list_all_cells fst_conv snd_conv)

lemma agrees_iff:
  "agrees puz h \<longleftrightarrow> (\<forall>r c. r < 9 \<and> c < 9 \<longrightarrow> puz ! r ! c = 0 \<or> h ! r ! c = puz ! r ! c)"
  by (simp only: agrees_def list_all_cells fst_conv snd_conv)

lemma firstEmpty_None: "firstEmpty g = None \<longleftrightarrow> (\<forall>r c. r < 9 \<and> c < 9 \<longrightarrow> g ! r ! c \<noteq> 0)"
proof -
  have "firstEmpty g = None \<longleftrightarrow> list_all (\<lambda>p. g ! fst p ! snd p \<noteq> 0) cells"
    by (simp only: firstEmpty_def find_None_iff list_all_iff Bex_def Ball_def case_prod_beta not_ex
        de_Morgan_conj not_not imp_conv_disj)
  then show ?thesis by (simp only: list_all_cells fst_conv snd_conv)
qed

lemma firstEmpty_Some:
  "firstEmpty g = Some (r, c) \<Longrightarrow> r < 9 \<and> c < 9 \<and> g ! r ! c = 0"
proof -
  assume "firstEmpty g = Some (r, c)"
  then obtain i where "i < length cells" "cells ! i = (r, c)" "g ! r ! c = 0"
    unfolding firstEmpty_def find_Some_iff by auto
  moreover from this have "(r, c) \<in> set cells" by (metis nth_mem)
  ultimately show ?thesis by (simp add: set_cells)
qed

lemma zeros_le: "zeros g \<le> 81"
  unfolding zeros_def using length_filter_le[of _ cells] by (simp add: length_cells)

lemma zeros_setCell:
  assumes "wf_grid g" "r < 9" "c < 9" "g ! r ! c = 0" "n \<noteq> 0"
  shows "zeros (setCell g r c n) < zeros g"
proof -
  define ys where "ys = filter (\<lambda>p. g ! fst p ! snd p = 0) cells"
  have Q: "(setCell g r c n ! fst p ! snd p = 0) \<longleftrightarrow> (g ! fst p ! snd p = 0 \<and> p \<noteq> (r, c))" for p
  proof (cases "p = (r, c)")
    case True
    then show ?thesis using assms by (simp add: nth_setCell)
  next
    case False
    then have ne: "\<not> (fst p = r \<and> snd p = c)" by (simp add: prod_eq_iff)
    have "setCell g r c n ! fst p ! snd p = g ! fst p ! snd p"
      unfolding nth_setCell[OF assms(1-3)] using ne by (rule if_not_P)
    then show ?thesis using False by simp
  qed
  have "filter (\<lambda>p. setCell g r c n ! fst p ! snd p = 0) cells = filter (\<lambda>p. p \<noteq> (r, c)) ys"
    unfolding ys_def filter_filter by (rule filter_cong) (simp_all only: Q conj_commute)
  moreover have "(r, c) \<in> set ys"
    unfolding ys_def using assms(2-4) by (simp add: set_cells)
  then have "length (filter (\<lambda>p. p \<noteq> (r, c)) ys) < length ys"
    by (rule length_filter_less) simp
  ultimately show ?thesis
    unfolding zeros_def ys_def by simp
qed

subsection \<open>The generator yields numbers in the unit interval\<close>

definition unit_rng :: "rng \<Rightarrow> bool" where
  "unit_rng g = (case g of Mulberry32 s \<Rightarrow> True | MathRandom rs \<Rightarrow> (\<forall>x \<in> sset rs. 0 \<le> x \<and> x < 1))"

definition extends :: "grid \<Rightarrow> grid \<Rightarrow> bool" where
  "extends g g' =
     list_all (\<lambda>p. if g ! fst p ! snd p = 0 then 1 \<le> g' ! fst p ! snd p \<and> g' ! fst p ! snd p \<le> 9
                    else g' ! fst p ! snd p = g ! fst p ! snd p) cells"

lemma sameUnit_sym: "sameUnit p q \<Longrightarrow> sameUnit q p"
  unfolding sameUnit_def by metis

lemma completionD:
  assumes "completion g h"
  shows "wf_grid h" "validGrid h"
    "\<And>r c. r < 9 \<Longrightarrow> c < 9 \<Longrightarrow> 1 \<le> h ! r ! c \<and> h ! r ! c \<le> 9"
    "\<And>r c. r < 9 \<Longrightarrow> c < 9 \<Longrightarrow> g ! r ! c = 0 \<or> h ! r ! c = g ! r ! c"
proof -
  show "wf_grid h" "validGrid h" using assms by (simp_all add: completion_def)
  have f: "fullGrid h" and a: "agrees g h" using assms by (simp_all add: completion_def)
  show "\<And>r c. r < 9 \<Longrightarrow> c < 9 \<Longrightarrow> 1 \<le> h ! r ! c \<and> h ! r ! c \<le> 9"
    using f unfolding fullGrid_iff by blast
  show "\<And>r c. r < 9 \<Longrightarrow> c < 9 \<Longrightarrow> g ! r ! c = 0 \<or> h ! r ! c = g ! r ! c"
    using a unfolding agrees_iff by blast
qed

lemma completion_isValid:
  assumes h: "completion g h" and r: "r < 9" and c: "c < 9" and z: "g ! r ! c = 0"
  shows "isValid g r c (h ! r ! c)"
  unfolding isValid_sameUnit[OF r c]
proof (intro allI impI)
  fix r' c' assume b: "r' < 9 \<and> c' < 9 \<and> sameUnit (r, c) (r', c')"
  have pos: "1 \<le> h ! r ! c" using completionD(3)[OF h r c] by simp
  show "g ! r' ! c' \<noteq> h ! r ! c"
  proof (cases "g ! r' ! c' = 0")
    case True
    then show ?thesis using pos by simp
  next
    case False
    then have ne: "(r, c) \<noteq> (r', c')" using z by auto
    have eq: "h ! r' ! c' = g ! r' ! c'" using completionD(4)[OF h, of r' c'] b False by blast
    have "h ! r ! c \<noteq> h ! r' ! c'"
      using validGridD[OF completionD(2)[OF h] r c _ _ ne] b pos by simp
    then show ?thesis using eq by simp
  qed
qed

lemma completion_setCell:
  assumes h: "completion g h" and w: "wf_grid g" and r: "r < 9" and c: "c < 9"
  shows "completion (setCell g r c (h ! r ! c)) h"
proof -
  have "agrees (setCell g r c (h ! r ! c)) h"
    unfolding agrees_iff nth_setCell[OF w r c]
    using completionD(4)[OF h] by simp
  then show ?thesis using h by (simp add: completion_def)
qed

lemma validGrid_setCell:
  assumes v: "validGrid g" and w: "wf_grid g" and r: "r < 9" and c: "c < 9"
    and n: "n \<noteq> 0" and ok: "isValid g r c n"
  shows "validGrid (setCell g r c n)"
proof (rule validGridI)
  fix a b a' b'
  assume ab: "a < 9" "b < 9" "a' < 9" "b' < 9" and ne: "(a, b) \<noteq> (a', b')"
    and u: "sameUnit (a, b) (a', b')" and nz: "setCell g r c n ! a ! b \<noteq> 0"
  have free: "\<And>x y. x < 9 \<Longrightarrow> y < 9 \<Longrightarrow> sameUnit (r, c) (x, y) \<Longrightarrow> g ! x ! y \<noteq> n"
    using ok unfolding isValid_sameUnit[OF r c] by blast
  show "setCell g r c n ! a ! b \<noteq> setCell g r c n ! a' ! b'"
  proof (cases "(a, b) = (r, c)")
    case True
    then have o: "(a', b') \<noteq> (r, c)" using ne by auto
    have "g ! a' ! b' \<noteq> n" using free[OF ab(3,4)] u True by simp
    then show ?thesis using True o by (auto simp: nth_setCell[OF w r c])
  next
    case False
    note ab_ne = this
    show ?thesis
    proof (cases "(a', b') = (r, c)")
      case True
      have "sameUnit (r, c) (a, b)" using sameUnit_sym[OF u] True by simp
      then have "g ! a ! b \<noteq> n" using free[OF ab(1,2)] by simp
      then show ?thesis using True ab_ne by (auto simp: nth_setCell[OF w r c])
    next
      case False
      have e1: "setCell g r c n ! a ! b = g ! a ! b"
        using ab_ne by (auto simp: nth_setCell[OF w r c])
      have e2: "setCell g r c n ! a' ! b' = g ! a' ! b'"
        using False by (auto simp: nth_setCell[OF w r c])
      show ?thesis
        unfolding e1 e2 using validGridD[OF v ab ne u] nz e1 by simp
    qed
  qed
qed

lemma unat32_real: "real (unat (w :: 32 word)) < 4294967296"
proof -
  have "unat w < 2 ^ 32" using unsigned_less[of w, where ?'a = nat] by simp
  then have "unat w < 4294967296" by simp
  then have "real (unat w) < real 4294967296" by (simp only: of_nat_less_iff)
  then show ?thesis by (simp only: of_nat_numeral)
qed

lemma mulberry32_next_unit:
  "mulberry32_next s = (x, s') \<Longrightarrow> 0 \<le> x \<and> x < 1"
proof -
  assume a: "mulberry32_next s = (x, s')"
  have "\<exists>w :: 32 word. fst (mulberry32_next s) = real (unat w) / 4294967296"
    unfolding mulberry32_next_def Let_def fst_conv by (rule exI) (rule refl)
  then obtain w :: "32 word" where "fst (mulberry32_next s) = real (unat w) / 4294967296" ..
  then have x: "x = real (unat w) / 4294967296" unfolding a fst_conv .
  have lt: "real (unat w) < 4294967296" by (rule unat32_real)
  have ge: "0 \<le> real (unat w)" by (rule of_nat_0_le_iff)
  have pos: "(0::real) < 4294967296" by (rule zero_less_numeral)
  have 1: "0 \<le> real (unat w) / 4294967296" using ge pos by (rule divide_nonneg_pos)
  have 2: "real (unat w) / 4294967296 < 1" using lt pos by (simp only: divide_less_eq_1_pos)
  show ?thesis unfolding x using 1 2 by (rule conjI)
qed

lemma rng_call_unit:
  assumes "unit_rng g" "rng_call g = (x, g')"
  shows "0 \<le> x \<and> x < 1 \<and> unit_rng g'"
proof (cases g)
  case (Mulberry32 s)
  obtain y s' where m: "mulberry32_next s = (y, s')" by (cases "mulberry32_next s")
  then have "x = y" "g' = Mulberry32 s'" using assms(2) Mulberry32 by simp_all
  then show ?thesis using mulberry32_next_unit[OF m] by (simp add: unit_rng_def)
next
  case (MathRandom rs)
  then have x: "x = shd rs" and g': "g' = MathRandom (stl rs)" using assms(2) by simp_all
  have all: "\<forall>y \<in> sset rs. 0 \<le> y \<and> y < 1" using assms(1) MathRandom by (simp add: unit_rng_def)
  have "shd rs \<in> sset rs" by (rule shd_sset)
  then have 1: "0 \<le> x \<and> x < 1" using all x by blast
  have "\<forall>y \<in> sset (stl rs). 0 \<le> y \<and> y < 1"
  proof
    fix y assume "y \<in> sset (stl rs)"
    then have "y \<in> sset rs" by (rule stl_sset)
    then show "0 \<le> y \<and> y < 1" using all by blast
  qed
  then have "unit_rng g'" unfolding g' by (simp add: unit_rng_def)
  then show ?thesis using 1 by blast
qed

lemma unit_floor:
  assumes "0 \<le> x" "x < 1" "0 < n"
  shows "nat \<lfloor>x * real n\<rfloor> < n"
proof -
  have "x * real n < real n" using assms by simp
  then have "\<lfloor>x * real n\<rfloor> < int n" by (simp add: floor_less_iff)
  then show ?thesis using assms(3) by linarith
qed

lemma shuffle_from_mset:
  "unit_rng g \<Longrightarrow> k < length arr \<Longrightarrow> shuffle_from k arr g = (arr', g') \<Longrightarrow>
     mset arr' = mset arr \<and> unit_rng g'"
proof (induction k arbitrary: arr g)
  case 0
  then show ?case by simp
next
  case (Suc k)
  obtain x g1 where call: "rng_call g = (x, g1)" by (cases "rng_call g")
  have u: "0 \<le> x \<and> x < 1 \<and> unit_rng g1" using rng_call_unit[OF Suc.prems(1) call] .
  define j where "j = nat \<lfloor>x * real (Suc k + 1)\<rfloor>"
  have j: "j < Suc k + 1" unfolding j_def using u by (intro unit_floor) simp_all
  define arr1 where "arr1 = arr[Suc k := arr ! j, j := arr ! Suc k]"
  have jl: "j < length arr" using j Suc.prems(2) by simp
  have m: "mset arr1 = mset arr" unfolding arr1_def using mset_swap[OF jl Suc.prems(2)] .
  have l: "k < length arr1" unfolding arr1_def using Suc.prems(2) by simp
  have rec: "shuffle_from k arr1 g1 = (arr', g')"
    using Suc.prems(3) call unfolding arr1_def j_def by (simp add: Let_def)
  show ?case using Suc.IH[OF _ l rec] u m by simp
qed

lemma shuffle_mset:
  assumes "unit_rng g" "shuffle arr g = (arr', g')"
  shows "mset arr' = mset arr \<and> unit_rng g'"
proof (cases "arr = []")
  case True
  then show ?thesis using assms by (simp add: shuffle_def)
next
  case False
  then have "length arr - 1 < length arr" by simp
  then show ?thesis using shuffle_from_mset[OF assms(1)] assms(2) unfolding shuffle_def by blast
qed

lemma digit_mem: "n \<in> set [1, 2, 3, 4, 5, 6, 7, 8, 9 :: nat] \<longleftrightarrow> 1 \<le> n \<and> n \<le> 9"
  by (simp only: set_simps insert_iff empty_iff) arith

subsection \<open>What fillGrid returns\<close>

definition fill_post :: "grid \<Rightarrow> bool \<Rightarrow> grid \<Rightarrow> rng \<Rightarrow> bool" where
  "fill_post g ok g' rng' =
     (unit_rng rng' \<and> wf_grid g' \<and>
      (if ok then firstEmpty g' = None \<and> extends g g' \<and> (validGrid g \<longrightarrow> validGrid g')
       else g' = g))"

lemma extends_iff:
  "extends g g' \<longleftrightarrow>
     (\<forall>r c. r < 9 \<and> c < 9 \<longrightarrow>
        (if g ! r ! c = 0 then 1 \<le> g' ! r ! c \<and> g' ! r ! c \<le> 9 else g' ! r ! c = g ! r ! c))"
  by (simp only: extends_def list_all_cells fst_conv snd_conv)

lemma setCell_clear:
  "g ! r ! c = 0 \<Longrightarrow> setCell (setCell g r c n) r c 0 = g"
  using setCell_restore[of g r c n] by simp

lemma fill_post_step:
  assumes p: "fill_post (setCell g r c n) True g' rng'"
    and w: "wf_grid g" and r: "r < 9" and c: "c < 9" and z: "g ! r ! c = 0"
    and n: "1 \<le> n" "n \<le> 9" and ok: "isValid g r c n"
  shows "fill_post g True g' rng'"
proof -
  have u: "unit_rng rng'" and w': "wf_grid g'" and f: "firstEmpty g' = None"
    and e: "extends (setCell g r c n) g'"
    and v: "validGrid (setCell g r c n) \<longrightarrow> validGrid g'"
    using p by (simp_all add: fill_post_def)
  have e': "extends g g'"
    unfolding extends_iff
  proof (intro allI impI)
    fix a b :: nat assume ab: "a < 9 \<and> b < 9"
    have E: "if setCell g r c n ! a ! b = 0 then 1 \<le> g' ! a ! b \<and> g' ! a ! b \<le> 9
             else g' ! a ! b = setCell g r c n ! a ! b"
      using e ab unfolding extends_iff by blast
    show "if g ! a ! b = 0 then 1 \<le> g' ! a ! b \<and> g' ! a ! b \<le> 9 else g' ! a ! b = g ! a ! b"
    proof (cases "a = r \<and> b = c")
      case True
      then have "setCell g r c n ! a ! b = n" by (simp add: nth_setCell[OF w r c])
      then have "g' ! a ! b = n" using E n by (auto split: if_splits)
      then show ?thesis using True z n by auto
    next
      case False
      then have eq: "setCell g r c n ! a ! b = g ! a ! b" by (auto simp: nth_setCell[OF w r c])
      show ?thesis using E unfolding eq .
    qed
  qed
  have v': "validGrid g \<longrightarrow> validGrid g'"
  proof
    assume "validGrid g"
    then have "validGrid (setCell g r c n)"
      using validGrid_setCell[OF _ w r c _ ok] n by simp
    then show "validGrid g'" using v by simp
  qed
  show ?thesis unfolding fill_post_def using u w' f e' v' by simp
qed

lemma tryNums_sound:
  assumes IH: "\<And>g rng ok g' rng'. wf_grid g \<Longrightarrow> unit_rng rng \<Longrightarrow>
      fillGrid fuel g rng = Some (ok, g', rng') \<Longrightarrow> fill_post g ok g' rng'"
  shows "wf_grid g \<Longrightarrow> unit_rng rng \<Longrightarrow> r < 9 \<Longrightarrow> c < 9 \<Longrightarrow> g ! r ! c = 0 \<Longrightarrow>
     (\<forall>n \<in> set nums. 1 \<le> n \<and> n \<le> 9) \<Longrightarrow>
     tryNums fuel r c nums g rng = Some (ok, g', rng') \<Longrightarrow> fill_post g ok g' rng'"
proof (induction nums arbitrary: rng)
  case Nil
  then show ?case by (simp add: fill_post_def)
next
  case (Cons num nums)
  have rest: "\<forall>n \<in> set nums. 1 \<le> n \<and> n \<le> 9" and num: "1 \<le> num" "num \<le> 9"
    using Cons.prems(6) by simp_all
  show ?case
  proof (cases "isValid g r c num")
    case False
    then have "tryNums fuel r c nums g rng = Some (ok, g', rng')"
      using Cons.prems(7) by simp
    then show ?thesis using Cons.IH[OF Cons.prems(1-5) rest] by blast
  next
    case True
    show ?thesis
    proof (cases "fillGrid fuel (setCell g r c num) rng")
      case None
      then show ?thesis using Cons.prems(7) True by simp
    next
      case (Some res)
      obtain ok1 g1 rng1 where res: "res = (ok1, g1, rng1)" by (cases res)
      have call: "fillGrid fuel (setCell g r c num) rng = Some (ok1, g1, rng1)"
        using Some res by simp
      have p1: "fill_post (setCell g r c num) ok1 g1 rng1"
        using IH[OF wf_setCell[OF Cons.prems(1)] Cons.prems(2) call] .
      show ?thesis
      proof (cases ok1)
        case True
        then have "ok = True" "g' = g1" "rng' = rng1"
          using Cons.prems(7) \<open>isValid g r c num\<close> call by simp_all
        then show ?thesis
          using fill_post_step[OF _ Cons.prems(1,3,4,5) num \<open>isValid g r c num\<close>] p1 True by simp
      next
        case False
        then have g1: "g1 = setCell g r c num" and u1: "unit_rng rng1"
          using p1 by (simp_all add: fill_post_def)
        have restored: "setCell g1 r c 0 = g"
          using setCell_clear[OF Cons.prems(5), of num] by (simp add: g1)
        have "tryNums fuel r c nums g rng1 = Some (ok, g', rng')"
          using Cons.prems(7) \<open>isValid g r c num\<close> call False restored by simp
        then show ?thesis using Cons.IH[OF Cons.prems(1) u1 Cons.prems(3-5) rest] by blast
      qed
    qed
  qed
qed

lemma shuffle_digits:
  assumes "unit_rng rng" "shuffle [1, 2, 3, 4, 5, 6, 7, 8, 9 :: nat] rng = (nums, rng1)"
  shows "unit_rng rng1" "\<And>n. n \<in> set nums \<longleftrightarrow> 1 \<le> n \<and> n \<le> 9"
proof -
  have m: "mset nums = mset [1, 2, 3, 4, 5, 6, 7, 8, 9 :: nat] \<and> unit_rng rng1"
    using shuffle_mset[OF assms] .
  then show "unit_rng rng1" by simp
  have "set nums = set [1, 2, 3, 4, 5, 6, 7, 8, 9 :: nat]" using m mset_eq_setD by blast
  then show "\<And>n. n \<in> set nums \<longleftrightarrow> 1 \<le> n \<and> n \<le> 9" by (simp only: digit_mem)
qed

lemma fillGrid_sound:
  "wf_grid g \<Longrightarrow> unit_rng rng \<Longrightarrow> fillGrid fuel g rng = Some (ok, g', rng') \<Longrightarrow>
     fill_post g ok g' rng'"
proof (induction fuel arbitrary: g rng ok g' rng')
  case 0
  then show ?case by simp
next
  case (Suc fuel)
  show ?case
  proof (cases "firstEmpty g")
    case None
    then have res: "ok = True" "g' = g" "rng' = rng" using Suc.prems(3) by simp_all
    have "extends g g"
      unfolding extends_iff
    proof (intro allI impI)
      fix r c :: nat assume "r < 9 \<and> c < 9"
      then have "g ! r ! c \<noteq> 0" using None unfolding firstEmpty_None by blast
      then show "if g ! r ! c = 0 then 1 \<le> g ! r ! c \<and> g ! r ! c \<le> 9 else g ! r ! c = g ! r ! c"
        by simp
    qed
    then show ?thesis unfolding res fill_post_def using Suc.prems(1,2) None by simp
  next
    case (Some p)
    obtain r c where p: "p = (r, c)" by (cases p)
    have rc: "r < 9 \<and> c < 9 \<and> g ! r ! c = 0" using firstEmpty_Some Some p by simp
    obtain nums rng1 where sh: "shuffle [1, 2, 3, 4, 5, 6, 7, 8, 9 :: nat] rng = (nums, rng1)"
      by (cases "shuffle [1, 2, 3, 4, 5, 6, 7, 8, 9 :: nat] rng")
    have u1: "unit_rng rng1" and dig: "\<forall>n \<in> set nums. 1 \<le> n \<and> n \<le> 9"
      using shuffle_digits[OF Suc.prems(2) sh] by simp_all
    have tr: "tryNums fuel r c nums g rng1 = Some (ok, g', rng')"
      using Suc.prems(3) Some p sh by simp
    show ?thesis
    proof (rule tryNums_sound[where fuel = fuel and r = r and c = c and nums = nums and rng = rng1])
      show "\<And>g rng ok g' rng'. wf_grid g \<Longrightarrow> unit_rng rng \<Longrightarrow>
          fillGrid fuel g rng = Some (ok, g', rng') \<Longrightarrow> fill_post g ok g' rng'"
        by (rule Suc.IH)
    qed (use rc Suc.prems(1) u1 dig tr in simp_all)
  qed
qed

subsection \<open>fillGrid finds a completion when there is one\<close>

lemma tryNums_complete:
  assumes IH: "\<And>g rng. wf_grid g \<Longrightarrow> unit_rng rng \<Longrightarrow> zeros g < fuel \<Longrightarrow>
       (\<exists>res. fillGrid fuel g rng = Some res) \<and>
       (completion g h \<longrightarrow> (\<exists>g' rng'. fillGrid fuel g rng = Some (True, g', rng')))"
  shows "wf_grid g \<Longrightarrow> unit_rng rng \<Longrightarrow> r < 9 \<Longrightarrow> c < 9 \<Longrightarrow> g ! r ! c = 0 \<Longrightarrow> zeros g \<le> fuel \<Longrightarrow>
     (\<forall>n \<in> set nums. 1 \<le> n \<and> n \<le> 9) \<Longrightarrow>
     (\<exists>res. tryNums fuel r c nums g rng = Some res) \<and>
     (completion g h \<and> h ! r ! c \<in> set nums \<longrightarrow>
        (\<exists>g' rng'. tryNums fuel r c nums g rng = Some (True, g', rng')))"
proof (induction nums arbitrary: rng)
  case Nil
  then show ?case by auto
next
  case (Cons num nums)
  have rest: "\<forall>n \<in> set nums. 1 \<le> n \<and> n \<le> 9" and num: "1 \<le> num" "num \<le> 9"
    using Cons.prems(7) by simp_all
  show ?case
  proof (cases "isValid g r c num")
    case False
    have eq: "tryNums fuel r c (num # nums) g rng = tryNums fuel r c nums g rng"
      using False by simp
    have ne: "completion g h \<Longrightarrow> h ! r ! c \<noteq> num"
      using completion_isValid[OF _ Cons.prems(3,4,5)] False by blast
    have A: "(\<exists>res. tryNums fuel r c nums g rng = Some res) \<and>
       (completion g h \<and> h ! r ! c \<in> set nums \<longrightarrow>
          (\<exists>g' rng'. tryNums fuel r c nums g rng = Some (True, g', rng')))"
      using Cons.IH[OF Cons.prems(1-6) rest] .
    show ?thesis unfolding eq using A ne by auto
  next
    case True
    let ?g1 = "setCell g r c num"
    have w1: "wf_grid ?g1" using wf_setCell[OF Cons.prems(1)] .
    have "zeros ?g1 < zeros g"
      using zeros_setCell[OF Cons.prems(1,3,4,5)] num by simp
    then have z1: "zeros ?g1 < fuel" using Cons.prems(6) by simp
    obtain res where call0: "fillGrid fuel ?g1 rng = Some res"
      and compl: "completion ?g1 h \<longrightarrow> (\<exists>g' rng'. fillGrid fuel ?g1 rng = Some (True, g', rng'))"
      using IH[OF w1 Cons.prems(2) z1] by blast
    obtain ok1 g1 rng1 where res: "res = (ok1, g1, rng1)" by (cases res)
    have call: "fillGrid fuel ?g1 rng = Some (ok1, g1, rng1)" using call0 res by simp
    have p1: "fill_post ?g1 ok1 g1 rng1" using fillGrid_sound[OF w1 Cons.prems(2) call] .
    show ?thesis
    proof (cases ok1)
      case True
      then have "tryNums fuel r c (num # nums) g rng = Some (True, g1, rng1)"
        using \<open>isValid g r c num\<close> call by simp
      then show ?thesis by blast
    next
      case False
      then have g1: "g1 = ?g1" and u1: "unit_rng rng1"
        using p1 by (simp_all add: fill_post_def)
      have restored: "setCell g1 r c 0 = g"
        using setCell_clear[OF Cons.prems(5), of num] by (simp add: g1)
      have eq: "tryNums fuel r c (num # nums) g rng = tryNums fuel r c nums g rng1"
        using \<open>isValid g r c num\<close> call False restored by simp
      have ne: "completion g h \<Longrightarrow> h ! r ! c \<noteq> num"
      proof
        assume h: "completion g h" and e: "h ! r ! c = num"
        have "completion ?g1 h"
          using completion_setCell[OF h Cons.prems(1,3,4)] e by simp
        then show False using compl call False by auto
      qed
      have A: "(\<exists>res. tryNums fuel r c nums g rng1 = Some res) \<and>
         (completion g h \<and> h ! r ! c \<in> set nums \<longrightarrow>
            (\<exists>g' rng'. tryNums fuel r c nums g rng1 = Some (True, g', rng')))"
        using Cons.IH[OF Cons.prems(1) u1 Cons.prems(3-6) rest] .
      show ?thesis unfolding eq using A ne by auto
    qed
  qed
qed

lemma fillGrid_complete:
  "wf_grid g \<Longrightarrow> unit_rng rng \<Longrightarrow> zeros g < fuel \<Longrightarrow>
     (\<exists>res. fillGrid fuel g rng = Some res) \<and>
     (completion g h \<longrightarrow> (\<exists>g' rng'. fillGrid fuel g rng = Some (True, g', rng')))"
proof (induction fuel arbitrary: g rng)
  case 0
  then show ?case by simp
next
  case (Suc fuel)
  show ?case
  proof (cases "firstEmpty g")
    case None
    then show ?thesis by auto
  next
    case (Some p)
    obtain r c where p: "p = (r, c)" by (cases p)
    have rc: "r < 9" "c < 9" "g ! r ! c = 0" using firstEmpty_Some Some p by simp_all
    obtain nums rng1 where sh: "shuffle [1, 2, 3, 4, 5, 6, 7, 8, 9 :: nat] rng = (nums, rng1)"
      by (cases "shuffle [1, 2, 3, 4, 5, 6, 7, 8, 9 :: nat] rng")
    have u1: "unit_rng rng1" and mem: "\<And>n. n \<in> set nums \<longleftrightarrow> 1 \<le> n \<and> n \<le> 9"
      using shuffle_digits[OF Suc.prems(2) sh] by simp_all
    have dig: "\<forall>n \<in> set nums. 1 \<le> n \<and> n \<le> 9" using mem by simp
    have eq: "fillGrid (Suc fuel) g rng = tryNums fuel r c nums g rng1"
      using Some p sh by simp
    have z: "zeros g \<le> fuel" using Suc.prems(3) by simp
    have hin: "completion g h \<Longrightarrow> h ! r ! c \<in> set nums"
      using completionD(3)[OF _ rc(1,2)] mem by simp
    have A: "(\<exists>res. tryNums fuel r c nums g rng1 = Some res) \<and>
       (completion g h \<and> h ! r ! c \<in> set nums \<longrightarrow>
          (\<exists>g' rng'. tryNums fuel r c nums g rng1 = Some (True, g', rng')))"
    proof (rule tryNums_complete[where fuel = fuel])
      show "\<And>g rng. wf_grid g \<Longrightarrow> unit_rng rng \<Longrightarrow> zeros g < fuel \<Longrightarrow>
         (\<exists>res. fillGrid fuel g rng = Some res) \<and>
         (completion g h \<longrightarrow> (\<exists>g' rng'. fillGrid fuel g rng = Some (True, g', rng')))"
        by (rule Suc.IH)
    qed (use Suc.prems(1) u1 rc z dig in simp_all)
    show ?thesis unfolding eq using A hin by blast
  qed
qed

subsection \<open>What countSolutions counts\<close>

definition solve_post :: "nat \<Rightarrow> grid \<Rightarrow> nat \<Rightarrow> grid \<Rightarrow> nat \<Rightarrow> bool" where
  "solve_post limit g cnt g' cnt' =
     (g' = g \<and> cnt \<le> cnt' \<and>
      (\<forall>h. completion g h \<longrightarrow> limit \<le> cnt' \<or> cnt + 1 \<le> cnt') \<and>
      (\<forall>h1 h2. completion g h1 \<and> completion g h2 \<and> h1 \<noteq> h2 \<longrightarrow> limit \<le> cnt' \<or> cnt + 2 \<le> cnt'))"

definition loop_post :: "nat \<Rightarrow> nat \<Rightarrow> nat \<Rightarrow> nat list \<Rightarrow> grid \<Rightarrow> nat \<Rightarrow> grid \<Rightarrow> nat \<Rightarrow> bool" where
  "loop_post limit r c nums g cnt g' cnt' =
     (g' = g \<and> cnt \<le> cnt' \<and>
      (\<forall>h. completion g h \<and> h ! r ! c \<in> set nums \<longrightarrow> limit \<le> cnt' \<or> cnt + 1 \<le> cnt') \<and>
      (\<forall>h1 h2. completion g h1 \<and> completion g h2 \<and> h1 \<noteq> h2 \<and> h1 ! r ! c \<in> set nums
           \<and> h2 ! r ! c \<in> set nums \<longrightarrow> limit \<le> cnt' \<or> cnt + 2 \<le> cnt'))"

lemma completion_full_unique:
  assumes g: "wf_grid g" and f: "firstEmpty g = None" and h: "completion g h"
  shows "h = g"
proof (rule grid_eqI)
  show "wf_grid h" using completionD(1)[OF h] .
  show "wf_grid g" using g .
  fix r c :: nat assume rc: "r < 9" "c < 9"
  have "g ! r ! c \<noteq> 0" using f rc unfolding firstEmpty_None by blast
  then show "h ! r ! c = g ! r ! c" using completionD(4)[OF h rc] by simp
qed

lemma loop_post_skip:
  assumes p: "loop_post limit r c nums g cnt g' cnt'"
    and ne: "\<And>h. completion g h \<Longrightarrow> h ! r ! c \<noteq> num"
  shows "loop_post limit r c (num # nums) g cnt g' cnt'"
proof -
  have m: "completion g h \<Longrightarrow> h ! r ! c \<in> set (num # nums) \<Longrightarrow> h ! r ! c \<in> set nums" for h
    using ne[of h] by auto
  show ?thesis
    using p unfolding loop_post_def
    by (intro conjI allI impI; (elim conjE)?) (use m in blast)+
qed

lemma loop_post_step:
  assumes w: "wf_grid g" and r: "r < 9" and c: "c < 9" and z: "g ! r ! c = 0"
    and p1: "solve_post limit (setCell g r c num) cnt g1 cnt1"
    and p2: "loop_post limit r c nums g cnt1 g' cnt'"
  shows "loop_post limit r c (num # nums) g cnt g' cnt'"
proof -
  let ?g1 = "setCell g r c num"
  have le1: "cnt \<le> cnt1" and le2: "cnt1 \<le> cnt'" and g': "g' = g"
    using p1 p2 by (simp_all add: solve_post_def loop_post_def)
  have one1: "\<And>h. completion ?g1 h \<Longrightarrow> limit \<le> cnt1 \<or> cnt + 1 \<le> cnt1"
    and two1: "\<And>h1 h2. completion ?g1 h1 \<Longrightarrow> completion ?g1 h2 \<Longrightarrow> h1 \<noteq> h2
         \<Longrightarrow> limit \<le> cnt1 \<or> cnt + 2 \<le> cnt1"
    using p1 unfolding solve_post_def by blast+
  have one2: "\<And>h. completion g h \<Longrightarrow> h ! r ! c \<in> set nums \<Longrightarrow> limit \<le> cnt' \<or> cnt1 + 1 \<le> cnt'"
    and two2: "\<And>h1 h2. completion g h1 \<Longrightarrow> completion g h2 \<Longrightarrow> h1 \<noteq> h2 \<Longrightarrow>
         h1 ! r ! c \<in> set nums \<Longrightarrow> h2 ! r ! c \<in> set nums \<Longrightarrow> limit \<le> cnt' \<or> cnt1 + 2 \<le> cnt'"
    using p2 unfolding loop_post_def by blast+
  have here: "completion g h \<Longrightarrow> h ! r ! c = num \<Longrightarrow> completion ?g1 h" for h
    using completion_setCell[OF _ w r c, of h] by auto
  have A: "limit \<le> cnt' \<or> cnt + 1 \<le> cnt'"
    if h: "completion g h" and m: "h ! r ! c \<in> set (num # nums)" for h
  proof (cases "h ! r ! c = num")
    case True
    then show ?thesis using one1[OF here[OF h True]] le2 by linarith
  next
    case False
    then have "h ! r ! c \<in> set nums" using m by simp
    then show ?thesis using one2[OF h] le1 by fastforce
  qed
  have B: "limit \<le> cnt' \<or> cnt + 2 \<le> cnt'"
    if h1: "completion g h1" and h2: "completion g h2" and ne: "h1 \<noteq> h2"
      and m1: "h1 ! r ! c \<in> set (num # nums)" and m2: "h2 ! r ! c \<in> set (num # nums)" for h1 h2
  proof (cases "h1 ! r ! c = num")
    case True
    note t1 = this
    show ?thesis
    proof (cases "h2 ! r ! c = num")
      case True
      then show ?thesis using two1[OF here[OF h1 t1] here[OF h2 True] ne] le2 by linarith
    next
      case False
      then have "h2 ! r ! c \<in> set nums" using m2 by simp
      then have "limit \<le> cnt' \<or> cnt1 + 1 \<le> cnt'" using one2[OF h2] by blast
      moreover have "limit \<le> cnt1 \<or> cnt + 1 \<le> cnt1" using one1[OF here[OF h1 t1]] .
      ultimately show ?thesis using le2 by linarith
    qed
  next
    case False
    then have n1: "h1 ! r ! c \<in> set nums" using m1 by simp
    show ?thesis
    proof (cases "h2 ! r ! c = num")
      case True
      have "limit \<le> cnt' \<or> cnt1 + 1 \<le> cnt'" using one2[OF h1 n1] .
      moreover have "limit \<le> cnt1 \<or> cnt + 1 \<le> cnt1" using one1[OF here[OF h2 True]] .
      ultimately show ?thesis using le2 by linarith
    next
      case False
      then have "h2 ! r ! c \<in> set nums" using m2 by simp
      then have "limit \<le> cnt' \<or> cnt1 + 2 \<le> cnt'" using two2[OF h1 h2 ne n1] by blast
      then show ?thesis using le1 by linarith
    qed
  qed
  show ?thesis
    unfolding loop_post_def using g' le1 le2 A B by (intro conjI allI impI) auto
qed

lemma solveNums_post:
  assumes IH: "\<And>g cnt g' cnt'. wf_grid g \<Longrightarrow> solve fuel limit g cnt = Some (g', cnt') \<Longrightarrow>
      solve_post limit g cnt g' cnt'"
  shows "wf_grid g \<Longrightarrow> r < 9 \<Longrightarrow> c < 9 \<Longrightarrow> g ! r ! c = 0 \<Longrightarrow>
     solveNums fuel limit r c nums g cnt = Some (g', cnt') \<Longrightarrow>
     loop_post limit r c nums g cnt g' cnt'"
proof (induction nums arbitrary: cnt)
  case Nil
  then show ?case by (simp add: loop_post_def)
next
  case (Cons num nums)
  show ?case
  proof (cases "isValid g r c num")
    case False
    then have "solveNums fuel limit r c nums g cnt = Some (g', cnt')"
      using Cons.prems(5) by simp
    then have p: "loop_post limit r c nums g cnt g' cnt'"
      using Cons.IH[OF Cons.prems(1-4)] by blast
    have ne: "\<And>h. completion g h \<Longrightarrow> h ! r ! c \<noteq> num"
      using completion_isValid[OF _ Cons.prems(2,3,4)] False by blast
    show ?thesis using loop_post_skip[OF p ne] .
  next
    case True
    show ?thesis
    proof (cases "solve fuel limit (setCell g r c num) cnt")
      case None
      then show ?thesis using Cons.prems(5) True by simp
    next
      case (Some res)
      obtain g1 cnt1 where res: "res = (g1, cnt1)" by (cases res)
      have call: "solve fuel limit (setCell g r c num) cnt = Some (g1, cnt1)"
        using Some res by simp
      have p1: "solve_post limit (setCell g r c num) cnt g1 cnt1"
        using IH[OF wf_setCell[OF Cons.prems(1)] call] .
      then have g1: "g1 = setCell g r c num" by (simp add: solve_post_def)
      have restored: "setCell g1 r c 0 = g"
        using setCell_clear[OF Cons.prems(4), of num] by (simp add: g1)
      have "solveNums fuel limit r c nums g cnt1 = Some (g', cnt')"
        using Cons.prems(5) True call restored by simp
      then have p2: "loop_post limit r c nums g cnt1 g' cnt'"
        using Cons.IH[OF Cons.prems(1-4)] by blast
      show ?thesis using loop_post_step[OF Cons.prems(1-4) p1 p2] .
    qed
  qed
qed

lemma digit_mem_upt: "n \<in> set [1..<10] \<longleftrightarrow> 1 \<le> n \<and> n \<le> 9"
  by (simp only: set_upt atLeastLessThan_iff) linarith

lemma solve_sound:
  "wf_grid g \<Longrightarrow> solve fuel limit g cnt = Some (g', cnt') \<Longrightarrow> solve_post limit g cnt g' cnt'"
proof (induction fuel arbitrary: g cnt g' cnt')
  case 0
  then show ?case by simp
next
  case (Suc fuel)
  show ?case
  proof (cases "cnt \<ge> limit")
    case True
    then have "g' = g" "cnt' = cnt" using Suc.prems(2) by simp_all
    then show ?thesis using True by (simp add: solve_post_def)
  next
    case False
    note lim = this
    show ?thesis
    proof (cases "firstEmpty g")
      case None
      then have res: "g' = g" "cnt' = cnt + 1" using Suc.prems(2) lim by simp_all
      have "\<And>h1 h2. completion g h1 \<Longrightarrow> completion g h2 \<Longrightarrow> h1 = h2"
        using completion_full_unique[OF Suc.prems(1) None] by blast
      then show ?thesis unfolding solve_post_def res by auto
    next
      case (Some p)
      obtain r c where p: "p = (r, c)" by (cases p)
      have rc: "r < 9" "c < 9" "g ! r ! c = 0" using firstEmpty_Some Some p by simp_all
      have loop: "solveNums fuel limit r c [1..<10] g cnt = Some (g', cnt')"
        using Suc.prems(2) lim Some p by simp
      have lp: "loop_post limit r c [1..<10] g cnt g' cnt'"
      proof (rule solveNums_post[where fuel = fuel])
        show "\<And>g cnt g' cnt'. wf_grid g \<Longrightarrow> solve fuel limit g cnt = Some (g', cnt') \<Longrightarrow>
            solve_post limit g cnt g' cnt'"
          by (rule Suc.IH)
      qed (use Suc.prems(1) rc loop in simp_all)
      have mem: "h ! r ! c \<in> set [1..<10]" if h: "completion g h" for h
        using completionD(3)[OF h rc(1,2)] unfolding digit_mem_upt .
      show ?thesis
        using lp mem unfolding solve_post_def loop_post_def by blast
    qed
  qed
qed

lemma solveNums_total:
  assumes IH: "\<And>g cnt. wf_grid g \<Longrightarrow> zeros g < fuel \<Longrightarrow> \<exists>res. solve fuel limit g cnt = Some res"
  shows "wf_grid g \<Longrightarrow> r < 9 \<Longrightarrow> c < 9 \<Longrightarrow> g ! r ! c = 0 \<Longrightarrow> zeros g \<le> fuel \<Longrightarrow>
     (\<forall>n \<in> set nums. n \<noteq> 0) \<Longrightarrow> \<exists>res. solveNums fuel limit r c nums g cnt = Some res"
proof (induction nums arbitrary: cnt)
  case Nil
  then show ?case by simp
next
  case (Cons num nums)
  have rest: "\<forall>n \<in> set nums. n \<noteq> 0" and num: "num \<noteq> 0" using Cons.prems(6) by simp_all
  show ?case
  proof (cases "isValid g r c num")
    case False
    then show ?thesis using Cons.IH[OF Cons.prems(1-5) rest] by simp
  next
    case True
    let ?g1 = "setCell g r c num"
    have w1: "wf_grid ?g1" using wf_setCell[OF Cons.prems(1)] .
    have "zeros ?g1 < zeros g" using zeros_setCell[OF Cons.prems(1-4) num] .
    then have z1: "zeros ?g1 < fuel" using Cons.prems(5) by simp
    obtain res where "solve fuel limit ?g1 cnt = Some res" using IH[OF w1 z1] by blast
    then obtain g1 cnt1 where call: "solve fuel limit ?g1 cnt = Some (g1, cnt1)" by (cases res) simp
    have g1: "g1 = ?g1" using solve_sound[OF w1 call] by (simp add: solve_post_def)
    have restored: "setCell g1 r c 0 = g"
      using setCell_clear[OF Cons.prems(4), of num] by (simp add: g1)
    have "solveNums fuel limit r c (num # nums) g cnt = solveNums fuel limit r c nums g cnt1"
      using True call restored by simp
    then show ?thesis using Cons.IH[OF Cons.prems(1-5) rest] by simp
  qed
qed

lemma solve_total:
  "wf_grid g \<Longrightarrow> zeros g < fuel \<Longrightarrow> \<exists>res. solve fuel limit g cnt = Some res"
proof (induction fuel arbitrary: g cnt)
  case 0
  then show ?case by simp
next
  case (Suc fuel)
  show ?case
  proof (cases "firstEmpty g")
    case None
    then show ?thesis by simp
  next
    case (Some p)
    obtain r c where p: "p = (r, c)" by (cases p)
    have rc: "r < 9" "c < 9" "g ! r ! c = 0" using firstEmpty_Some Some p by simp_all
    have z: "zeros g \<le> fuel" using Suc.prems(2) by simp
    have nz: "\<forall>n \<in> set [1..<10]. n \<noteq> (0::nat)" by simp
    have "\<exists>res. solveNums fuel limit r c [1..<10] g cnt = Some res"
    proof (rule solveNums_total[where fuel = fuel])
      show "\<And>g cnt. wf_grid g \<Longrightarrow> zeros g < fuel \<Longrightarrow> \<exists>res. solve fuel limit g cnt = Some res"
        by (rule Suc.IH)
    qed (use Suc.prems(1) rc z nz in simp_all)
    then show ?thesis using Some p by simp
  qed
qed

subsection \<open>A solved grid\<close>

text \<open>
  A solved grid: it shows that the empty grid has a completion, and it is the input
  where theorems are applied to a concrete grid.
\<close>

definition exampleSolution :: grid where
  "exampleSolution =
     [[7, 2, 9, 8, 6, 3, 1, 5, 4], [4, 1, 3, 7, 9, 5, 2, 6, 8], [5, 8, 6, 1, 4, 2, 9, 7, 3],
      [3, 5, 7, 2, 8, 4, 6, 1, 9], [9, 4, 2, 6, 7, 1, 3, 8, 5], [8, 6, 1, 5, 3, 9, 4, 2, 7],
      [2, 9, 5, 4, 1, 8, 7, 3, 6], [1, 7, 4, 3, 5, 6, 8, 9, 2], [6, 3, 8, 9, 2, 7, 5, 4, 1]]"

subsection \<open>The removal loop of generate\<close>

lemma cloneGrid_id: "cloneGrid g = g"
  by (simp add: cloneGrid_def)

lemma countSolutions_total:
  assumes "wf_grid g"
  shows "\<exists>n. countSolutions g limit = Some n"
proof -
  have "zeros g < 82" using zeros_le[of g] by simp
  then obtain res where "solve 82 limit g 0 = Some res"
    using solve_total[OF assms, of 82 limit 0] by blast
  then show ?thesis by (simp add: countSolutions_def cloneGrid_id)
qed

lemma countSolutions_full:
  assumes "firstEmpty g = None" "0 < limit"
  shows "countSolutions g limit = Some 1"
proof -
  have "solve (Suc 81) limit g 0 = Some (g, 1)" using assms by (simp del: Suc_numeral)
  then have "solve 82 limit g 0 = Some (g, 1)" by simp
  then show ?thesis by (simp add: countSolutions_def cloneGrid_id)
qed

lemma countSolutions_unique:
  assumes w: "wf_grid g" and one: "countSolutions g 2 = Some 1"
    and h1: "completion g h1" and h2: "completion g h2"
  shows "h1 = h2"
proof (rule ccontr)
  assume ne: "h1 \<noteq> h2"
  obtain g' where s: "solve 82 2 g 0 = Some (g', 1)"
    using one by (auto simp: countSolutions_def cloneGrid_id)
  have "solve_post 2 g 0 g' 1" using solve_sound[OF w s] .
  then have "(2::nat) \<le> 1 \<or> (0::nat) + 2 \<le> 1"
    unfolding solve_post_def using h1 h2 ne by blast
  then show False by simp
qed

lemma agrees_clear:
  assumes w: "wf_grid puz" and a: "agrees puz sol" and r: "r < 9" and c: "c < 9"
  shows "agrees (setCell puz r c 0) sol"
  unfolding agrees_iff nth_setCell[OF w r c] using a unfolding agrees_iff by simp

lemma removeCells_inv:
  "wf_grid puz \<Longrightarrow> agrees puz sol \<Longrightarrow> countSolutions puz 2 = Some 1 \<Longrightarrow> removed \<le> k \<Longrightarrow>
   (\<forall>p \<in> set ps. fst p < 9 \<and> snd p < 9) \<Longrightarrow>
   \<exists>puz' removed'. removeCells ps k puz removed = Some (puz', removed') \<and> wf_grid puz' \<and>
      agrees puz' sol \<and> countSolutions puz' 2 = Some 1 \<and> removed' \<le> k"
proof (induction ps arbitrary: puz removed)
  case Nil
  then show ?case by simp
next
  case (Cons p ps)
  obtain row col where p: "p = (row, col)" by (cases p)
  have rc: "row < 9" "col < 9" and rest: "\<forall>p \<in> set ps. fst p < 9 \<and> snd p < 9"
    using Cons.prems(5) p by simp_all
  show ?case
  proof (cases "removed \<ge> k")
    case True
    then show ?thesis using Cons.prems p by simp
  next
    case False
    let ?puz1 = "setCell puz row col 0"
    have w1: "wf_grid ?puz1" using wf_setCell[OF Cons.prems(1)] .
    have a1: "agrees ?puz1 sol" using agrees_clear[OF Cons.prems(1,2) rc] .
    obtain n where n: "countSolutions ?puz1 2 = Some n" using countSolutions_total[OF w1] by blast
    show ?thesis
    proof (cases "n = 1")
      case True
      have eq: "removeCells (p # ps) k puz removed = removeCells ps k ?puz1 (removed + 1)"
        using False n True p by (simp add: Let_def)
      have "removed + 1 \<le> k" using False by simp
      then show ?thesis
        unfolding eq using Cons.IH[OF w1 a1 _ _ rest] n True by simp
    next
      case ne: False
      have restored: "setCell ?puz1 row col (puz ! row ! col) = puz" by (rule setCell_restore)
      have eq: "removeCells (p # ps) k puz removed = removeCells ps k puz removed"
        using False n ne p restored by (simp add: Let_def)
      show ?thesis
        unfolding eq using Cons.IH[OF Cons.prems(1-4) rest] .
    qed
  qed
qed

lemma wf_createEmptyGrid: "wf_grid createEmptyGrid"
  by (simp add: wf_grid_def createEmptyGrid_def list_all_iff)

lemma createEmptyGrid_nth: "r < 9 \<Longrightarrow> c < 9 \<Longrightarrow> createEmptyGrid ! r ! c = 0"
  by (simp add: createEmptyGrid_def)

lemma wf_exampleSolution: "wf_grid exampleSolution"
  by (simp add: wf_grid_def exampleSolution_def)

lemma fullGrid_exampleSolution: "fullGrid exampleSolution"
  by code_simp

lemma validGrid_exampleSolution: "validGrid exampleSolution"
  by code_simp

lemma completion_empty: "completion createEmptyGrid exampleSolution"
proof -
  have "agrees createEmptyGrid exampleSolution"
    unfolding agrees_iff using createEmptyGrid_nth by simp
  then show ?thesis
    unfolding completion_def
    using wf_exampleSolution fullGrid_exampleSolution validGrid_exampleSolution by simp
qed

lemma validGrid_empty: "validGrid createEmptyGrid"
  by (rule validGridI) (simp add: createEmptyGrid_nth)

subsection \<open>generate\<close>

lemma positions_range:
  assumes "unit_rng g" "shuffle (map (\<lambda>i. (i div 9, i mod 9)) [0..<81]) g = (ps, g')"
  shows "\<forall>p \<in> set ps. fst p < 9 \<and> snd p < 9"
proof -
  have "mset ps = mset (map (\<lambda>i. (i div 9, i mod 9)) [0..<81])"
    using shuffle_mset[OF assms] by simp
  then have "set ps = set (map (\<lambda>i. (i div 9, i mod 9)) [0..<81])" by (rule mset_eq_setD)
  then have "set ps = (\<lambda>i. (i div 9, i mod 9)) ` {0..<81}" by (simp only: set_map set_upt)
  moreover have "(i::nat) div 9 < 9" if "i < 81" for i using that by (simp add: less_mult_imp_div_less)
  ultimately show ?thesis by auto
qed

lemma clueRange_bounds: "clueRange level = (lo, hi) \<Longrightarrow> lo \<le> hi \<and> hi \<le> 81"
  by (auto simp: clueRange_def DIFFICULTY_def split: if_splits)

lemma unit_mulberry32: "unit_rng (mulberry32 s)"
  by (simp add: mulberry32_def unit_rng_def)

lemma extends_empty_full:
  assumes "extends createEmptyGrid sol"
  shows "fullGrid sol"
  unfolding fullGrid_iff
proof (intro allI impI)
  fix r c :: nat assume rc: "r < 9 \<and> c < 9"
  then have z: "createEmptyGrid ! r ! c = 0" using createEmptyGrid_nth by simp
  have "if createEmptyGrid ! r ! c = 0 then 1 \<le> sol ! r ! c \<and> sol ! r ! c \<le> 9
        else sol ! r ! c = createEmptyGrid ! r ! c"
    using assms rc unfolding extends_iff by blast
  then show "1 \<le> sol ! r ! c \<and> sol ! r ! c \<le> 9" using z by simp
qed

lemma agrees_refl: "agrees g g"
  unfolding agrees_iff by simp

lemma generate_core:
  assumes u: "unit_rng (case seedOpt of Some s \<Rightarrow> mulberry32 s | None \<Rightarrow> MathRandom mr)"
  shows "\<exists>res. generate level seedOpt mr = Some res \<and>
      countSolutions (puzzle res) 2 = Some 1 \<and>
      completion (puzzle res) (solution res) \<and>
      (\<forall>h. completion (puzzle res) h \<longrightarrow> h = solution res) \<and>
      fst (clueRange level) \<le> clues res \<and> clues res \<le> 81"
proof -
  define g0 where "g0 = (case seedOpt of Some s \<Rightarrow> mulberry32 s | None \<Rightarrow> MathRandom mr)"
  obtain lo hi where cr: "clueRange level = (lo, hi)" by (cases "clueRange level")
  have lohi: "lo \<le> hi \<and> hi \<le> 81" using clueRange_bounds[OF cr] .
  obtain x g1 where call: "rng_call g0 = (x, g1)" by (cases "rng_call g0")
  have x: "0 \<le> x \<and> x < 1 \<and> unit_rng g1" using rng_call_unit[OF _ call] u unfolding g0_def by simp
  define target where "target = nat \<lfloor>x * real (hi - lo + 1)\<rfloor> + lo"
  have "nat \<lfloor>x * real (hi - lo + 1)\<rfloor> < hi - lo + 1" using x by (intro unit_floor) simp_all
  then have target: "lo \<le> target \<and> target \<le> hi" unfolding target_def using lohi by linarith
  define k where "k = 81 - target"
  have zz: "zeros createEmptyGrid < 82" using zeros_le[of createEmptyGrid] by simp
  obtain sol g2 where fill: "fillGrid 82 createEmptyGrid g1 = Some (True, sol, g2)"
    using fillGrid_complete[OF wf_createEmptyGrid _ zz, of g1 exampleSolution] x completion_empty
    by blast
  have post: "fill_post createEmptyGrid True sol g2"
    using fillGrid_sound[OF wf_createEmptyGrid _ fill] x by simp
  then have u2: "unit_rng g2" and wsol: "wf_grid sol" and full0: "firstEmpty sol = None"
    and ext: "extends createEmptyGrid sol" and vsol: "validGrid sol"
    using validGrid_empty by (simp_all add: fill_post_def)
  have fsol: "fullGrid sol" using extends_empty_full[OF ext] .
  obtain ps g3 where sh: "shuffle (map (\<lambda>i. (i div 9, i mod 9)) [0..<81]) g2 = (ps, g3)"
    by (cases "shuffle (map (\<lambda>i. (i div 9, i mod 9)) [0..<81]) g2")
  have psr: "\<forall>p \<in> set ps. fst p < 9 \<and> snd p < 9" using positions_range[OF u2 sh] .
  have c0: "countSolutions sol 2 = Some 1" using countSolutions_full[OF full0] by simp
  obtain puz removed where rem: "removeCells ps k sol 0 = Some (puz, removed)"
    and wpuz: "wf_grid puz" and apuz: "agrees puz sol" and cpuz: "countSolutions puz 2 = Some 1"
    and rk: "removed \<le> k"
    using removeCells_inv[where k = k and removed = 0, OF wsol agrees_refl c0 _ psr] by auto
  define res where "res = \<lparr>puzzle = puz, solution = sol, difficulty = level,
      clues = 81 - removed, seed = seedOpt\<rparr>"
  have gen: "generate level seedOpt mr = Some res"
    unfolding generate_def g0_def[symmetric] res_def
    using cr call fill sh rem[unfolded k_def target_def]
    by (simp add: Let_def cloneGrid_id)
  have comp: "completion (puzzle res) (solution res)"
    unfolding res_def completion_def using wsol fsol vsol apuz by simp
  have uniq: "\<forall>h. completion (puzzle res) h \<longrightarrow> h = solution res"
  proof (intro allI impI)
    fix h assume "completion (puzzle res) h"
    then show "h = solution res"
      using countSolutions_unique[OF wpuz cpuz _ comp[unfolded res_def, simplified]]
      by (simp add: res_def)
  qed
  have cl: "fst (clueRange level) \<le> clues res \<and> clues res \<le> 81"
    unfolding res_def cr using rk target lohi unfolding k_def by (simp, arith)
  have c1: "countSolutions (puzzle res) 2 = Some 1" using cpuz by (simp add: res_def)
  show ?thesis
    by (rule exI[of _ res]) (intro conjI gen c1 comp uniq cl[THEN conjunct1] cl[THEN conjunct2])
qed

section \<open>Properties of the engine\<close>

text \<open>
  Claim C10. For a 9x9 grid and a cell \<open>(r, c)\<close> of it that already holds \<open>v\<close>,
  \<open>isValid g r c v\<close> is false: the scan of row \<open>r\<close> reaches the cell itself. So
  \<open>isValid\<close> answers "can \<open>v\<close> be placed here" only for a cell that is treated as empty.
\<close>

theorem isValid_rejects_own_value:
  assumes "wf_grid g" and "r < 9" and "c < 9" and "g ! r ! c = v"
  shows "isValid g r c v = False"
proof -
  have "\<exists>c'. c' < 9 \<and> g ! r ! c' = v" using assms(3,4) by blast
  then show ?thesis unfolding isValid_iff by blast
qed

theorem isValid_rejects_own_value_witness:
  "wf_grid exampleSolution \<and> (0::nat) < 9 \<and> (4::nat) < 9 \<and> exampleSolution ! 0 ! 4 = 6
   \<and> isValid exampleSolution 0 4 6 = False"
proof -
  have w: "wf_grid exampleSolution" by (simp add: wf_grid_def exampleSolution_def)
  have v: "exampleSolution ! 0 ! 4 = 6" by (simp add: exampleSolution_def)
  have "isValid exampleSolution 0 4 6 = False"
    using isValid_rejects_own_value[OF w _ _ v] by simp
  then show ?thesis using w v by simp
qed



text \<open>
  Claim C1. For every difficulty band and every seed, \<open>generate\<close> returns a result; on
  its puzzle grid \<open>countSolutions\<close> (the uniqueness counter, with its cutoff 2) returns 1;
  the returned solution is a completion of the puzzle grid (a full 9x9 grid of digits 1 to 9
  with no repeat in a row, column or box, which keeps the puzzle's non-empty cells); every
  completion of the puzzle grid is that solution; and every non-empty cell of the puzzle
  grid equals the cell of the solution.
\<close>

theorem generate_unique_completion:
  assumes "level \<in> set getDifficulties"
  shows "\<exists>res. generate level (Some s) mathRandom = Some res \<and>
      countSolutions (puzzle res) 2 = Some 1 \<and>
      completion (puzzle res) (solution res) \<and>
      (\<forall>h. completion (puzzle res) h \<longrightarrow> h = solution res) \<and>
      agrees (puzzle res) (solution res)"
proof -
  have "unit_rng (case Some s of Some s \<Rightarrow> mulberry32 s | None \<Rightarrow> MathRandom mathRandom)"
    by (simp add: unit_mulberry32)
  then obtain res where res: "generate level (Some s) mathRandom = Some res"
    "countSolutions (puzzle res) 2 = Some 1" "completion (puzzle res) (solution res)"
    "\<forall>h. completion (puzzle res) h \<longrightarrow> h = solution res"
    using generate_core[where seedOpt = "Some s" and mr = mathRandom and level = level] by blast
  have "agrees (puzzle res) (solution res)" using res(3) by (simp add: completion_def)
  then show ?thesis using res by blast
qed

theorem generate_unique_completion_witness:
  "''medium'' \<in> set getDifficulties \<and>
   (\<exists>res h. generate ''medium'' (Some 12345) (sconst 0) = Some res \<and>
      countSolutions (puzzle res) 2 = Some 1 \<and> completion (puzzle res) h \<and> h = solution res)"
proof -
  have m: "''medium'' \<in> set getDifficulties" by (simp add: getDifficulties_def DIFFICULTY_def)
  show ?thesis using generate_unique_completion[OF m, of 12345 "sconst 0"] m by blast
qed

end
